theory Spec2Isabelle
  imports
    Complex_Main
    "HOL-Library.Word"
    "HOL-Library.Signed_Division"
    "HOL-Library.Char_ord"
    "HOL-Library.List_Lexorder"
    "HOL-Library.Product_Lexorder"
    "HOL-Library.Sublist"
begin

section \<open>The timer of \<^verbatim>\<open>cpptimer.h\<close>\<close>

text \<open>
  A shallow embedding of class \<^verbatim>\<open>CppTimer\<close>. Each member function becomes a function
  from the object's state to its new state. What the class reads from its environment is
  an argument: the value of \<^verbatim>\<open>hr_clock::now()\<close> and the value of
  \<^verbatim>\<open>omp_get_thread_num()\<close>. The calls of \<^verbatim>\<open>warn\<close> are collected, in order,
  in the field \<open>warned\<close>. Calls are executed one after the other: the critical sections
  of OpenMP and what threads do between them are not part of the model.
\<close>

subsection \<open>Types\<close>

text \<open>
  The model is of an LP64 platform: \<^verbatim>\<open>unsigned int\<close> is 32 bits wide,
  \<^verbatim>\<open>unsigned long int\<close> and \<^verbatim>\<open>unsigned long long int\<close> are 64 bits wide, and a
  \<^verbatim>\<open>time_point\<close> of the high-resolution clock is a count of nanosecond ticks.
\<close>

type_synonym u32 = "32 word"
type_synonym u64 = "64 word"
type_synonym time_point = int
type_synonym keypair = "string \<times> u32"

text \<open>
  The arithmetic of \<^verbatim>\<open>double\<close> is an argument of the model: the conversion of an
  unsigned integer to a \<^verbatim>\<open>double\<close> and the four operations the code uses. Every
  theorem about the aggregation holds for each such arithmetic, hence for IEEE 754
  with any rounding; \<open>exact_arith\<close> is the arithmetic without rounding.
\<close>

record 'd arith =
  d_of_nat :: "nat \<Rightarrow> 'd"
  d_add :: "'d \<Rightarrow> 'd \<Rightarrow> 'd"
  d_sub :: "'d \<Rightarrow> 'd \<Rightarrow> 'd"
  d_mul :: "'d \<Rightarrow> 'd \<Rightarrow> 'd"
  d_div :: "'d \<Rightarrow> 'd \<Rightarrow> 'd"

definition exact_arith :: "real arith" where
  "exact_arith =
     \<lparr>d_of_nat = of_nat, d_add = (+), d_sub = (-), d_mul = (*), d_div = (/)\<rparr>"

text \<open>The tuple \<^verbatim>\<open>(mean, M2, count)\<close> stored per tag in \<^verbatim>\<open>data\<close>.\<close>

type_synonym 'd stat = "'d \<times> 'd \<times> u64"

text \<open>
  The members of the class. \<^verbatim>\<open>tics\<close> is a \<^verbatim>\<open>std::map\<close> that \<^verbatim>\<open>aggregate\<close>
  iterates, so the order of its entries is part of the behaviour: it is the list of its
  entries in ascending key order. \<^verbatim>\<open>data\<close> is only read and written by key.
\<close>

record 'd CppTimer =
  tics :: "(keypair \<times> time_point) list"
  tags :: "string list"
  durations :: "u64 list"
  data :: "string \<rightharpoonup> 'd stat"
  name :: string
  verbose :: bool
  warned :: "string list"

subsection \<open>The operations of \<^verbatim>\<open>std::map\<close> on \<^verbatim>\<open>tics\<close>\<close>

text \<open>
  \<^verbatim>\<open>std::pair\<close> and \<^verbatim>\<open>std::string\<close> compare lexicographically, as the orders on
  pairs and lists do here.
\<close>

definition map_find :: "'k \<Rightarrow> ('k \<times> 'v) list \<Rightarrow> 'v option" where
  "map_find k m = map_of m k"

fun map_assign :: "'k::linorder \<Rightarrow> 'v \<Rightarrow> ('k \<times> 'v) list \<Rightarrow> ('k \<times> 'v) list" where
  "map_assign k v [] = [(k, v)]"
| "map_assign k v ((k', v') # m) =
     (if k < k' then (k, v) # (k', v') # m
      else if k = k' then (k, v) # m
      else (k', v') # map_assign k v m)"

definition map_erase :: "'k \<Rightarrow> ('k \<times> 'v) list \<Rightarrow> ('k \<times> 'v) list" where
  "map_erase k m = filter (\<lambda>e. fst e \<noteq> k) m"

subsection \<open>Constructors\<close>

definition CppTimer_name_verbose :: "string \<Rightarrow> bool \<Rightarrow> 'd CppTimer" where
  "CppTimer_name_verbose nm vb =
     \<lparr>tics = [], tags = [], durations = [], data = Map.empty,
      name = nm, verbose = vb, warned = []\<rparr>"

definition CppTimer_default :: "'d CppTimer" where
  "CppTimer_default = CppTimer_name_verbose ''times'' True"

definition CppTimer_name :: "string \<Rightarrow> 'd CppTimer" where
  "CppTimer_name nm = CppTimer_name_verbose nm True"

definition CppTimer_verbose :: "bool \<Rightarrow> 'd CppTimer" where
  "CppTimer_verbose vb = CppTimer_name_verbose ''times'' vb"

subsection \<open>Diagnostics\<close>

text \<open>
  Modelled from the spec: \<^verbatim>\<open>warn\<close> is declared in \<^verbatim>\<open>chameleon.h\<close>, which is not
  part of the sources. The spec treats it as an injected capability that emits the message
  and returns; here it appends the message to \<open>warned\<close>.
\<close>

definition warn :: "string \<Rightarrow> 'd CppTimer \<Rightarrow> 'd CppTimer" where
  "warn msg s = s\<lparr>warned := warned s @ [msg]\<rparr>"

definition not_started_msg :: "string \<Rightarrow> string" where
  "not_started_msg tag =
     ''Timer '' @ [CHR 0x22] @ tag @ [CHR 0x22] @ '' not started yet. '' @ [CHR 0x0A] @
     ''Use tic('' @ [CHR 0x22] @ tag @ [CHR 0x22] @ '') to start the timer.''"

definition not_stopped_msg :: "string \<Rightarrow> string" where
  "not_stopped_msg tag =
     ''Timer '' @ [CHR 0x22] @ tag @ [CHR 0x22] @ '' not stopped yet. '' @ [CHR 0x0A] @
     ''Use toc('' @ [CHR 0x22] @ tag @ [CHR 0x22] @ '') to stop the timer.''"

subsection \<open>\<^verbatim>\<open>tic\<close> and \<^verbatim>\<open>toc\<close>\<close>

definition tic :: "string \<Rightarrow> u32 \<Rightarrow> time_point \<Rightarrow> 'd CppTimer \<Rightarrow> 'd CppTimer" where
  "tic tag thread now s = s\<lparr>tics := map_assign (tag, thread) now (tics s)\<rparr>"

text \<open>
  \<^verbatim>\<open>duration_cast<microseconds>\<close> divides the nanosecond count by 1000 and truncates
  towards zero; \<^verbatim>\<open>push_back\<close> converts the signed count to \<^verbatim>\<open>unsigned long long\<close>.
\<close>

definition elapsed_us :: "time_point \<Rightarrow> time_point \<Rightarrow> u64" where
  "elapsed_us now start = word_of_int ((now - start) sdiv 1000)"

definition toc :: "string \<Rightarrow> u32 \<Rightarrow> time_point \<Rightarrow> 'd CppTimer \<Rightarrow> 'd CppTimer" where
  "toc tag thread now s =
     (let key = (tag, thread) in
      case map_find key (tics s) of
        None \<Rightarrow> if verbose s then warn (not_started_msg (fst key)) s else s
      | Some start \<Rightarrow>
          s\<lparr>durations := durations s @ [elapsed_us now start],
            tics := map_erase key (tics s),
            tags := tags s @ [fst key]\<rparr>)"

subsection \<open>\<^verbatim>\<open>ScopedTimer\<close>\<close>

text \<open>
  The nested class holds a reference to the timer and the tag. The reference is the state
  that is passed in and returned. The member \<^verbatim>\<open>tag\<close> has the default member
  initializer \<^verbatim>\<open>"ScopedTimer"\<close>. The class has one constructor: it takes the timer and
  a tag, initializes the member from its argument in place of the default, and starts the
  timer; the destructor stops it.
\<close>

record ScopedTimer =
  ScopedTimer_tag :: string

definition ScopedTimer_members :: ScopedTimer where
  "ScopedTimer_members = \<lparr>ScopedTimer_tag = ''ScopedTimer''\<rparr>"

definition ScopedTimer_ctor ::
  "string \<Rightarrow> u32 \<Rightarrow> time_point \<Rightarrow> 'd CppTimer \<Rightarrow> ScopedTimer \<times> 'd CppTimer" where
  "ScopedTimer_ctor tag thread now clock =
     (let this = ScopedTimer_members\<lparr>ScopedTimer_tag := tag\<rparr>
      in (this, tic (ScopedTimer_tag this) thread now clock))"

definition ScopedTimer_dtor ::
  "ScopedTimer \<Rightarrow> u32 \<Rightarrow> time_point \<Rightarrow> 'd CppTimer \<Rightarrow> 'd CppTimer" where
  "ScopedTimer_dtor this thread now clock = toc (ScopedTimer_tag this) thread now clock"

text \<open>
  A block that declares a \<^verbatim>\<open>ScopedTimer\<close> first. C++ destroys the object when the
  block is left, whichever way: by reaching its end, by a \<^verbatim>\<open>return\<close>, or by an
  exception that unwinds the stack. The body is any function of the timer's state that
  also says how it leaves the block. The thread that leaves the block is the thread that
  entered it.
\<close>

datatype scope_exit = Fallthrough | EarlyReturn | Unwinding

definition scoped_block ::
  "string \<Rightarrow> u32 \<Rightarrow> time_point \<Rightarrow> ('d CppTimer \<Rightarrow> scope_exit \<times> 'd CppTimer) \<Rightarrow>
   time_point \<Rightarrow> 'd CppTimer \<Rightarrow> scope_exit \<times> 'd CppTimer" where
  "scoped_block tag thread t_in body t_out clock =
     (case ScopedTimer_ctor tag thread t_in clock of
        (this, clock1) \<Rightarrow>
          (case body clock1 of
             (how, clock2) \<Rightarrow> (how, ScopedTimer_dtor this thread t_out clock2)))"

text \<open>
  The same block written with an explicit pair of calls, \<^verbatim>\<open>tic\<close> before the body and
  \<^verbatim>\<open>toc\<close> after it: the \<^verbatim>\<open>toc\<close> is reached only when the body runs to its end.
\<close>

definition explicit_block ::
  "string \<Rightarrow> u32 \<Rightarrow> time_point \<Rightarrow> ('d CppTimer \<Rightarrow> scope_exit \<times> 'd CppTimer) \<Rightarrow>
   time_point \<Rightarrow> 'd CppTimer \<Rightarrow> scope_exit \<times> 'd CppTimer" where
  "explicit_block tag thread t_in body t_out clock =
     (case body (tic tag thread t_in clock) of
        (Fallthrough, clock2) \<Rightarrow> (Fallthrough, toc tag thread t_out clock2)
      | (how, clock2) \<Rightarrow> (how, clock2))"

text \<open>
  Three bodies: one that does nothing and runs to its end, one that does nothing and
  throws, and one that is itself a block with a \<^verbatim>\<open>ScopedTimer\<close> of tag \<^verbatim>\<open>y\<close>
  in thread 0, as in a function that declares the timer and calls itself once.
\<close>

definition straight_body :: "'d CppTimer \<Rightarrow> scope_exit \<times> 'd CppTimer" where
  "straight_body clock = (Fallthrough, clock)"

definition throwing_body :: "'d CppTimer \<Rightarrow> scope_exit \<times> 'd CppTimer" where
  "throwing_body clock = (Unwinding, clock)"

definition nested_body :: "'d CppTimer \<Rightarrow> scope_exit \<times> 'd CppTimer" where
  "nested_body clock = scoped_block ''y'' 0 1000 straight_body 2000 clock"

subsection \<open>\<^verbatim>\<open>aggregate\<close> and \<^verbatim>\<open>reset\<close>\<close>

text \<open>One step of Welford's algorithm, the body of the inner \<^verbatim>\<open>if\<close>.\<close>

definition welford :: "'d arith \<Rightarrow> 'd stat \<Rightarrow> u64 \<Rightarrow> 'd stat" where
  "welford ar st x =
     (case st of (mean, M2, count) \<Rightarrow>
        let count1 = count + 1;
            delta = d_sub ar (d_of_nat ar (unat x)) mean;
            mean1 = d_add ar mean (d_div ar delta (d_of_nat ar (unat count1)));
            M2' = d_add ar M2 (d_mul ar delta (d_sub ar (d_of_nat ar (unat x)) mean1))
        in (mean1, M2', count1))"

text \<open>
  The inner loop over \<open>j\<close>. \<^verbatim>\<open>tags[j]\<close> is in range by the loop's test; \<^verbatim>\<open>durations[j]\<close>
  is read without a test, and out of range the behaviour is undefined: the result is
  \<open>None\<close>. The index is an \<^verbatim>\<open>unsigned long\<close>, as wide as the size of a vector, so
  it does not wrap around.
\<close>

function update_loop ::
  "'d arith \<Rightarrow> string \<Rightarrow> string list \<Rightarrow> u64 list \<Rightarrow> nat \<Rightarrow> 'd stat \<Rightarrow> 'd stat option" where
  "update_loop ar tag tgs durs j st =
     (if j < length tgs then
        (if tgs ! j = tag then
           (if j < length durs
            then update_loop ar tag tgs durs (Suc j) (welford ar st (durs ! j))
            else None)
         else update_loop ar tag tgs durs (Suc j) st)
      else Some st)"
  by pat_completeness auto
termination
  by (relation "measure (\<lambda>(ar, tag, tgs, durs, j, st). length tgs - j)") auto

declare update_loop.simps [simp del]

text \<open>The initial values of \<^verbatim>\<open>mean\<close>, \<^verbatim>\<open>M2\<close> and \<^verbatim>\<open>count\<close> for a tag.\<close>

definition init_stat :: "'d arith \<Rightarrow> (string \<rightharpoonup> 'd stat) \<Rightarrow> string \<Rightarrow> 'd stat" where
  "init_stat ar d tag =
     (case d tag of
        None \<Rightarrow> (d_of_nat ar 0, d_of_nat ar 0, 0)
      | Some (mean, M2, count) \<Rightarrow> (mean, M2, count))"

text \<open>
  The outer loop over \<^verbatim>\<open>unique_tags\<close>. Its index \<open>i\<close> is an \<^verbatim>\<open>unsigned int\<close>, which
  is narrower than the size of the vector it is compared with: \<open>i + 1\<close> wraps around at
  \<open>2 ^ 32\<close>, and with that many distinct tags or more the loop does not end. A loop that
  does not end has the value \<open>None\<close>, as has one whose inner loop is undefined.
\<close>

partial_function (option) aggregate_loop ::
  "'d arith \<Rightarrow> string list \<Rightarrow> string list \<Rightarrow> u64 list \<Rightarrow> u32 \<Rightarrow> (string \<rightharpoonup> 'd stat) \<Rightarrow>
   (string \<rightharpoonup> 'd stat) option" where
  "aggregate_loop ar unique tgs durs i d =
     (if unat i < length unique then
        (case update_loop ar (unique ! unat i) tgs durs 0 (init_stat ar d (unique ! unat i)) of
           None \<Rightarrow> None
         | Some st \<Rightarrow> aggregate_loop ar unique tgs durs (i + 1) (d(unique ! unat i \<mapsto> st)))
      else Some d)"

declare aggregate_loop.simps [code]

text \<open>\<^verbatim>\<open>std::sort\<close> followed by \<^verbatim>\<open>std::unique\<close> and \<^verbatim>\<open>erase\<close>.\<close>

definition unique_tags :: "string list \<Rightarrow> string list" where
  "unique_tags tgs = remdups_adj (sort tgs)"

definition warn_not_stopped :: "'d CppTimer \<Rightarrow> 'd CppTimer" where
  "warn_not_stopped s = fold (\<lambda>e. warn (not_stopped_msg (fst (fst e)))) (tics s) s"

definition aggregate :: "'d arith \<Rightarrow> 'd CppTimer \<Rightarrow> 'd CppTimer option" where
  "aggregate ar s =
     (let s1 = (if verbose s then warn_not_stopped s else s) in
      case aggregate_loop ar (unique_tags (tags s1)) (tags s1) (durations s1) 0 (data s1) of
        None \<Rightarrow> None
      | Some d \<Rightarrow> Some (s1\<lparr>data := d, tags := [], durations := []\<rparr>))"

definition reset :: "'d CppTimer \<Rightarrow> 'd CppTimer" where
  "reset s = s\<lparr>tics := [], durations := [], tags := [], data := Map.empty\<rparr>"

subsection \<open>Sequences of calls\<close>

datatype call =
  Tic string u32 time_point
| Toc string u32 time_point
| Aggregate
| Reset

fun call_step :: "'d arith \<Rightarrow> call \<Rightarrow> 'd CppTimer \<Rightarrow> 'd CppTimer option" where
  "call_step ar (Tic tag thread now) s = Some (tic tag thread now s)"
| "call_step ar (Toc tag thread now) s = Some (toc tag thread now s)"
| "call_step ar Aggregate s = aggregate ar s"
| "call_step ar Reset s = Some (reset s)"

fun run :: "'d arith \<Rightarrow> call list \<Rightarrow> 'd CppTimer \<Rightarrow> 'd CppTimer option" where
  "run ar [] s = Some s"
| "run ar (c # cs) s =
     (case call_step ar c s of None \<Rightarrow> None | Some s1 \<Rightarrow> run ar cs s1)"

subsection \<open>Notions used to state the properties\<close>

text \<open>
  A batch is the content of the two vectors \<^verbatim>\<open>tags\<close> and \<^verbatim>\<open>durations\<close> read as one
  sequence of pairs. \<open>entries\<close> are the durations a batch holds for a tag, in the order
  of the batch; \<open>welford_fold\<close> runs Welford's step over them; \<open>merged\<close> is the table
  in which every tag of the batch has been folded into its previous entry.
\<close>

definition entries :: "string \<Rightarrow> (string \<times> u64) list \<Rightarrow> u64 list" where
  "entries tag batch = map snd (filter (\<lambda>e. fst e = tag) batch)"

definition welford_fold :: "'d arith \<Rightarrow> u64 list \<Rightarrow> 'd stat \<Rightarrow> 'd stat" where
  "welford_fold ar xs st = fold (\<lambda>x acc. welford ar acc x) xs st"

definition merged ::
  "'d arith \<Rightarrow> (string \<times> u64) list \<Rightarrow> (string \<rightharpoonup> 'd stat) \<Rightarrow> (string \<rightharpoonup> 'd stat)" where
  "merged ar batch d =
     (\<lambda>t. if t \<in> fst ` set batch
          then Some (welford_fold ar (entries t batch) (init_stat ar d t))
          else d t)"

text \<open>The timer whose two vectors hold a given batch.\<close>

definition with_batch :: "(string \<times> u64) list \<Rightarrow> 'd CppTimer \<Rightarrow> 'd CppTimer" where
  "with_batch batch s = s\<lparr>tags := map fst batch, durations := map snd batch\<rparr>"

text \<open>The messages \<^verbatim>\<open>aggregate\<close> emits: one per entry of \<^verbatim>\<open>tics\<close>, if verbose.\<close>

definition open_msgs :: "'d CppTimer \<Rightarrow> string list" where
  "open_msgs s =
     (if verbose s then map (\<lambda>e. not_stopped_msg (fst (fst e))) (tics s) else [])"

text \<open>
  The data model in the words of the spec, for comparison with the code: the
  IntervalTracker is a mapping from (tag, context-id) to a start time, the DurationLog a
  sequence of (tag, elapsed) pairs. A start records the time under the key, a stop of an
  open key removes it and appends one pair, a stop of any other key does nothing, an
  aggregation drains the log, a reset clears both.
\<close>

type_synonym spec_state = "(keypair \<rightharpoonup> time_point) \<times> (string \<times> u64) list"

fun spec_step :: "call \<Rightarrow> spec_state \<Rightarrow> spec_state" where
  "spec_step (Tic tag thread now) (tr, lg) = (tr((tag, thread) \<mapsto> now), lg)"
| "spec_step (Toc tag thread now) (tr, lg) =
     (case tr (tag, thread) of
        None \<Rightarrow> (tr, lg)
      | Some start \<Rightarrow> (tr((tag, thread) := None), lg @ [(tag, elapsed_us now start)]))"
| "spec_step Aggregate (tr, lg) = (tr, [])"
| "spec_step Reset (tr, lg) = (Map.empty, [])"

definition spec_run :: "call list \<Rightarrow> spec_state" where
  "spec_run calls = fold spec_step calls (Map.empty, [])"

text \<open>
  Whether a key is open after a sequence of calls, read off the calls alone: the start
  time of the last start of the key, unless a stop of the key or a reset came after it.
\<close>

fun open_step :: "keypair \<Rightarrow> call \<Rightarrow> time_point option \<Rightarrow> time_point option" where
  "open_step k (Tic tag thread now) acc = (if (tag, thread) = k then Some now else acc)"
| "open_step k (Toc tag thread now) acc = (if (tag, thread) = k then None else acc)"
| "open_step k Aggregate acc = acc"
| "open_step k Reset acc = None"

definition open_since :: "keypair \<Rightarrow> call list \<Rightarrow> time_point option" where
  "open_since k calls = fold (open_step k) calls None"

subsection \<open>A concrete timer and a concrete sequence of calls\<close>

text \<open>
  A timer with one open interval, three logged durations under two tags and earlier
  statistics for two tags, and a sequence of calls, on which the properties below are
  evaluated.
\<close>

definition example_timer :: "real CppTimer" where
  "example_timer =
     \<lparr>tics = [((''load'', 0), 1000)], tags = [''fit'', ''io'', ''fit''],
      durations = [20, 5, 30], data = [''fit'' \<mapsto> (10, 0, 1), ''plot'' \<mapsto> (7, 2, 4)],
      name = ''times'', verbose = True, warned = []\<rparr>"

definition example_calls :: "call list" where
  "example_calls =
     [Tic ''a'' 0 10000, Tic ''a'' 1 20000, Toc ''a'' 0 5010000, Toc ''b'' 0 5020000,
      Aggregate, Tic ''b'' 0 1, Reset, Tic ''c'' 2 7000, Tic ''c'' 2 9000, Tic ''d'' 0 9500,
      Toc ''d'' 0 12500]"

section \<open>Properties\<close>

subsection \<open>The map operations\<close>

lemma map_find_assign:
  "map_find q (map_assign k v m) = (if q = k then Some v else map_find q m)"
  by (induction m) (auto simp: map_find_def)

lemma map_find_erase:
  "map_find q (map_erase k m) = (if q = k then None else map_find q m)"
  by (induction m) (auto simp: map_find_def map_erase_def)

subsection \<open>The loops of \<^verbatim>\<open>aggregate\<close>\<close>

lemma update_loop_drop:
  "length tgs \<le> length durs \<Longrightarrow>
   update_loop ar tag tgs durs j st =
     Some (welford_fold ar (entries tag (zip (drop j tgs) (drop j durs))) st)"
proof (induction ar tag tgs durs j st rule: update_loop.induct)
  case (1 ar tag tgs durs j st)
  show ?case
  proof (cases "j < length tgs")
    case False
    then show ?thesis by (simp add: update_loop.simps entries_def welford_fold_def)
  next
    case True
    with "1.prems" have jd: "j < length durs" by simp
    have dt: "drop j tgs = tgs ! j # drop (Suc j) tgs"
      using True by (simp add: Cons_nth_drop_Suc)
    have dd: "drop j durs = durs ! j # drop (Suc j) durs"
      using jd by (simp add: Cons_nth_drop_Suc)
    show ?thesis
    proof (cases "tgs ! j = tag")
      case eq: True
      from "1.IH"(1)[OF True eq jd "1.prems"] show ?thesis
        using True eq jd
        by (subst update_loop.simps) (simp add: entries_def welford_fold_def dt dd)
    next
      case ne: False
      from "1.IH"(2)[OF True ne "1.prems"] show ?thesis
        using True ne
        by (subst update_loop.simps) (simp add: entries_def welford_fold_def dt dd)
    qed
  qed
qed

lemma update_loop_all:
  "length tgs \<le> length durs \<Longrightarrow>
   update_loop ar tag tgs durs 0 st = Some (welford_fold ar (entries tag (zip tgs durs)) st)"
  using update_loop_drop [of tgs durs ar tag 0 st] by simp

lemma sorted_remdups_adj_distinct: "sorted xs \<Longrightarrow> distinct (remdups_adj xs)"
  by (induction xs rule: remdups_adj.induct) auto

lemma distinct_unique_tags: "distinct (unique_tags tgs)"
  by (simp add: unique_tags_def sorted_remdups_adj_distinct)

lemma set_unique_tags: "set (unique_tags tgs) = set tgs"
  by (simp add: unique_tags_def)

lemma init_stat_upd: "t \<noteq> u \<Longrightarrow> init_stat ar (d(u \<mapsto> st)) t = init_stat ar d t"
  by (simp add: init_stat_def)

lemma nth_notin_drop_Suc:
  assumes "distinct us" "k < length us"
  shows "us ! k \<notin> set (drop (Suc k) us)"
proof -
  from assms(1) have "distinct (drop k us)" by simp
  with assms(2) show ?thesis by (simp add: Cons_nth_drop_Suc [symmetric])
qed

lemma aggregate_loop_from:
  assumes "length tgs \<le> length durs" "distinct us" "length us < 2 ^ 32"
  shows "unat i \<le> length us \<Longrightarrow>
    aggregate_loop ar us tgs durs i d =
      Some (\<lambda>t. if t \<in> set (drop (unat i) us)
                 then Some (welford_fold ar (entries t (zip tgs durs)) (init_stat ar d t))
                 else d t)"
proof (induction "length us - unat i" arbitrary: i d)
  case 0
  then have "\<not> unat i < length us" "drop (unat i) us = []" by simp_all
  then show ?case by (subst aggregate_loop.simps) simp
next
  case (Suc n)
  let ?k = "unat i"
  from Suc.hyps(2) have k: "?k < length us" by simp
  with assms(3) have "unat i + unat (1 :: u32) < 2 ^ LENGTH(32)" by simp
  then have u: "unat (i + 1) = Suc ?k" by (simp add: unat_add_lem [THEN iffD1])
  have n: "n = length us - unat (i + 1)" and le: "unat (i + 1) \<le> length us"
    using Suc.hyps(2) k by (simp_all add: u)
  have dr: "drop ?k us = us ! ?k # drop (Suc ?k) us"
    using k by (simp add: Cons_nth_drop_Suc)
  have nin: "us ! ?k \<notin> set (drop (Suc ?k) us)"
    by (rule nth_notin_drop_Suc [OF assms(2) k])
  have other: "init_stat ar (d(us ! ?k \<mapsto> st)) t = init_stat ar d t"
    if "t \<in> set (drop (Suc ?k) us)" for t st
    using that nin by (intro init_stat_upd) auto
  have "aggregate_loop ar us tgs durs i d =
      aggregate_loop ar us tgs durs (i + 1)
        (d(us ! ?k \<mapsto> welford_fold ar (entries (us ! ?k) (zip tgs durs))
                          (init_stat ar d (us ! ?k))))"
    by (subst aggregate_loop.simps) (simp add: k update_loop_all [OF assms(1)])
  also have "\<dots> =
      Some (\<lambda>t. if t \<in> set (drop ?k us)
                 then Some (welford_fold ar (entries t (zip tgs durs)) (init_stat ar d t))
                 else d t)"
    unfolding Suc.hyps(1) [OF n le] u dr using nin by (auto simp: other intro!: ext)
  finally show ?case .
qed

lemma few_tags: "length tgs < 2 ^ 32 \<Longrightarrow> card (set tgs) < 2 ^ 32"
  using card_length [of tgs] by simp

lemma few_batch_tags: "length batch < 2 ^ 32 \<Longrightarrow> card (fst ` set batch) < 2 ^ 32"
  using few_tags [of "map fst batch"] by simp

lemma card_unique_tags: "length (unique_tags tgs) = card (set tgs)"
  using distinct_card [OF distinct_unique_tags, of tgs] by (simp add: set_unique_tags)

lemma fold_warn: "fold (\<lambda>e. warn (f e)) xs s = s\<lparr>warned := warned s @ map f xs\<rparr>"
  by (induction xs arbitrary: s) (simp_all add: warn_def)

lemma fst_set_zip: "length xs = length ys \<Longrightarrow> fst ` set (zip xs ys) = set xs"
  by (metis map_fst_zip set_map order_refl)

text \<open>
  What \<^verbatim>\<open>aggregate\<close> computes when the two vectors have the same length and hold
  fewer than \<open>2 ^ 32\<close> distinct tags: it returns, having appended its messages, merged
  the batch into the table and emptied both vectors.
\<close>

lemma aggregate_eq:
  assumes "length (tags s) = length (durations s)" "card (set (tags s)) < 2 ^ 32"
  shows "aggregate ar s =
     Some (s\<lparr>warned := warned s @ open_msgs s,
            data := merged ar (zip (tags s) (durations s)) (data s),
            tags := [], durations := []\<rparr>)"
proof -
  have le: "length (tags s) \<le> length (durations s)" using assms by simp
  have lt: "length (unique_tags (tags s)) < 2 ^ 32" using assms by (simp add: card_unique_tags)
  have z: "unat (0 :: u32) \<le> length (unique_tags (tags s))" by simp
  show ?thesis
    by (simp add: aggregate_def warn_not_stopped_def fold_warn open_msgs_def merged_def
        aggregate_loop_from [OF le distinct_unique_tags lt z] set_unique_tags
        fst_set_zip [OF assms(1)])
qed

text \<open>What \<^verbatim>\<open>aggregate\<close> leaves behind whenever it returns.\<close>

lemma aggregate_SomeD:
  "aggregate ar s = Some s1 \<Longrightarrow>
   tags s1 = [] \<and> durations s1 = [] \<and> tics s1 = tics s \<and> warned s1 = warned s @ open_msgs s"
  by (auto simp: aggregate_def Let_def warn_not_stopped_def fold_warn open_msgs_def
      split: option.splits if_splits)

subsection \<open>Messages and merging\<close>

lemma sublist_not_started: "sublist tag (not_started_msg tag)"
  unfolding not_started_msg_def sublist_def
  by (rule exI [of _ "''Timer '' @ [CHR 0x22]"], rule exI)
     (simp del: append_assoc add: append_assoc [symmetric])

lemma sublist_not_stopped: "sublist tag (not_stopped_msg tag)"
  unfolding not_stopped_msg_def sublist_def
  by (rule exI [of _ "''Timer '' @ [CHR 0x22]"], rule exI)
     (simp del: append_assoc add: append_assoc [symmetric])

lemma in_batch_iff: "t \<in> fst ` set batch \<longleftrightarrow> entries t batch \<noteq> []"
  by (auto simp: entries_def filter_empty_conv image_iff)

lemma welford_fold_append:
  "welford_fold ar (xs @ ys) st = welford_fold ar ys (welford_fold ar xs st)"
  by (simp add: welford_fold_def)

lemma init_stat_merged:
  "init_stat ar (merged ar batch d) t = welford_fold ar (entries t batch) (init_stat ar d t)"
proof (cases "t \<in> fst ` set batch")
  case True
  then show ?thesis by (simp add: merged_def init_stat_def split: prod.splits)
next
  case False
  then have "entries t batch = []" by (simp add: in_batch_iff)
  with False show ?thesis by (simp add: merged_def init_stat_def welford_fold_def)
qed

lemma merged_split:
  assumes "\<forall>t. entries t batch = entries t batch1 @ entries t batch2"
  shows "merged ar batch2 (merged ar batch1 d) = merged ar batch d"
proof
  fix t
  have e: "entries t batch = entries t batch1 @ entries t batch2" using assms by simp
  show "merged ar batch2 (merged ar batch1 d) t = merged ar batch d t"
  proof (cases "t \<in> fst ` set batch2")
    case True
    then have "t \<in> fst ` set batch" using e by (simp add: in_batch_iff)
    with True show ?thesis
      by (simp add: merged_def [of ar batch2] merged_def [of ar batch] init_stat_merged e
          welford_fold_append)
  next
    case False
    then have e2: "entries t batch2 = []" by (simp add: in_batch_iff)
    then have "t \<in> fst ` set batch \<longleftrightarrow> t \<in> fst ` set batch1"
      using e by (simp add: in_batch_iff)
    with False e e2 show ?thesis by (simp add: merged_def)
  qed
qed

lemma aggregate_with_batch:
  assumes "card (fst ` set batch) < 2 ^ 32"
  shows "aggregate ar (with_batch batch s) =
     Some (s\<lparr>warned := warned s @ open_msgs s, data := merged ar batch (data s),
            tags := [], durations := []\<rparr>)"
proof -
  have len: "length (tags (with_batch batch s)) = length (durations (with_batch batch s))"
    by (simp add: with_batch_def)
  have c: "card (set (tags (with_batch batch s))) < 2 ^ 32"
    using assms by (simp add: with_batch_def)
  have om: "open_msgs (with_batch batch s) = open_msgs s"
    by (simp add: open_msgs_def with_batch_def)
  show ?thesis
    unfolding aggregate_eq [OF len c, of ar] om
    by (simp add: with_batch_def zip_map_fst_snd)
qed

lemma split_tags_subset:
  assumes "\<forall>t. entries t batch = entries t batch1 @ entries t batch2"
  shows "fst ` set batch1 \<subseteq> fst ` set batch" "fst ` set batch2 \<subseteq> fst ` set batch"
proof -
  have "t \<in> fst ` set batch" if "t \<in> fst ` set batch1 \<or> t \<in> fst ` set batch2" for t
    using that assms by (auto simp: in_batch_iff)
  then show "fst ` set batch1 \<subseteq> fst ` set batch" "fst ` set batch2 \<subseteq> fst ` set batch"
    by blast+
qed

subsection \<open>Sequences of calls against the data model of the spec\<close>

lemma map_assign_keys: "set (map fst (map_assign k v m)) = insert k (set (map fst m))"
proof (induction m)
  case Nil
  then show ?case by simp
next
  case (Cons e m)
  obtain k' v' where e: "e = (k', v')" by (cases e)
  from Cons.IH show ?case unfolding e by (simp add: insert_commute)
qed

lemma map_assign_sorted:
  "sorted_wrt (<) (map fst m) \<Longrightarrow> sorted_wrt (<) (map fst (map_assign k v m))"
proof (induction m)
  case Nil
  then show ?case by simp
next
  case (Cons e m)
  obtain k' v' where e: "e = (k', v')" by (cases e)
  from Cons.prems have tl: "sorted_wrt (<) (map fst m)" and hd: "\<forall>x \<in> set (map fst m). k' < x"
    by (auto simp: e)
  show ?case
  proof (cases "k < k'")
    case True
    with Cons.prems hd show ?thesis by (auto simp: e)
  next
    case False
    show ?thesis
    proof (cases "k = k'")
      case True
      with Cons.prems show ?thesis by (simp add: e)
    next
      case ne: False
      with False have "k' < k" by simp
      with hd have "\<forall>x \<in> set (map fst (map_assign k v m)). k' < x"
        by (simp only: map_assign_keys) simp
      with False ne Cons.IH [OF tl] show ?thesis by (simp add: e)
    qed
  qed
qed

lemma map_erase_sorted:
  "sorted_wrt (<) (map fst m) \<Longrightarrow> sorted_wrt (<) (map fst (map_erase k m))"
  by (induction m) (auto simp: map_erase_def)

lemma call_step_refines:
  assumes "\<forall>k. map_find k (tics s) = tr k" "tags s = map fst lg" "durations s = map snd lg"
    and "call_step ar c s = Some s1"
  shows "(\<forall>k. map_find k (tics s1) = fst (spec_step c (tr, lg)) k) \<and>
         tags s1 = map fst (snd (spec_step c (tr, lg))) \<and>
         durations s1 = map snd (snd (spec_step c (tr, lg)))"
proof (cases c)
  case (Tic tag thread now)
  with assms show ?thesis by (auto simp: tic_def map_find_assign)
next
  case (Toc tag thread now)
  show ?thesis
  proof (cases "tr (tag, thread)")
    case None
    with assms have "map_find (tag, thread) (tics s) = None" by simp
    with assms None Toc show ?thesis by (auto simp: toc_def warn_def)
  next
    case (Some start)
    with assms have "map_find (tag, thread) (tics s) = Some start" by simp
    with assms Some Toc show ?thesis by (auto simp: toc_def map_find_erase)
  qed
next
  case Aggregate
  with assms(4) have "aggregate ar s = Some s1" by simp
  from aggregate_SomeD [OF this] assms(1) Aggregate show ?thesis by simp
next
  case Reset
  with assms(4) show ?thesis by (auto simp: reset_def map_find_def)
qed

lemma run_refines:
  assumes "\<forall>k. map_find k (tics s) = tr k" "tags s = map fst lg" "durations s = map snd lg"
    and "run ar calls s = Some s1"
  shows "(\<forall>k. map_find k (tics s1) = fst (fold spec_step calls (tr, lg)) k) \<and>
         tags s1 = map fst (snd (fold spec_step calls (tr, lg))) \<and>
         durations s1 = map snd (snd (fold spec_step calls (tr, lg)))"
  using assms
proof (induction calls arbitrary: s tr lg)
  case Nil
  then show ?case by simp
next
  case (Cons c calls)
  from Cons.prems(4) obtain s2 where
    st: "call_step ar c s = Some s2" and rn: "run ar calls s2 = Some s1"
    by (auto split: option.splits)
  obtain tr2 lg2 where sp: "spec_step c (tr, lg) = (tr2, lg2)"
    by (cases "spec_step c (tr, lg)")
  from call_step_refines [OF Cons.prems(1-3) st] sp have
    r: "\<forall>k. map_find k (tics s2) = tr2 k" "tags s2 = map fst lg2" "durations s2 = map snd lg2"
    by simp_all
  from Cons.IH [OF r rn] sp show ?case by simp
qed

lemma run_fresh:
  assumes "run ar calls (CppTimer_name_verbose nm vb) = Some s1"
  shows "(\<forall>k. map_find k (tics s1) = fst (spec_run calls) k) \<and>
         tags s1 = map fst (snd (spec_run calls)) \<and>
         durations s1 = map snd (snd (spec_run calls))"
  unfolding spec_run_def
  by (rule run_refines [OF _ _ _ assms])
     (simp_all add: CppTimer_name_verbose_def map_find_def)

text \<open>
  A call returns when the two vectors have the same length and hold fewer than
  \<open>2 ^ 32\<close> entries; it adds at most one entry. So fewer than \<open>2 ^ 32\<close> calls on a
  new timer all return.
\<close>

lemma call_step_returns:
  assumes "length (tags s) = length (durations s)" "length (tags s) < 2 ^ 32"
  shows "\<exists>s1. call_step ar c s = Some s1 \<and> length (tags s1) = length (durations s1) \<and>
           length (tags s1) \<le> Suc (length (tags s))"
proof (cases c)
  case Aggregate
  have "card (set (tags s)) \<le> length (tags s)" by (rule card_length)
  with assms(2) have "card (set (tags s)) < 2 ^ 32" by simp
  from aggregate_eq [OF assms(1) this, of ar] Aggregate show ?thesis by simp
next
  case (Toc tag thread now)
  with assms(1) show ?thesis by (simp add: toc_def warn_def Let_def split: option.splits)
qed (use assms(1) in \<open>simp_all add: tic_def reset_def\<close>)

lemma run_returns:
  "length (tags s) = length (durations s) \<Longrightarrow> length (tags s) + length calls < 2 ^ 32 \<Longrightarrow>
   \<exists>s1. run ar calls s = Some s1"
proof (induction calls arbitrary: s)
  case Nil
  then show ?case by simp
next
  case (Cons c calls)
  from Cons.prems have "length (tags s) < 2 ^ 32" by simp
  from call_step_returns [OF Cons.prems(1) this, of ar c] obtain s2 where
    st: "call_step ar c s = Some s2" and
    l: "length (tags s2) = length (durations s2)" "length (tags s2) \<le> Suc (length (tags s))"
    by blast
  from l(2) Cons.prems(2) have "length (tags s2) + length calls < 2 ^ 32" by simp
  from Cons.IH [OF l(1) this] st show ?case by simp
qed

lemma run_fresh_returns:
  "length calls < 2 ^ 32 \<Longrightarrow> \<exists>s1. run ar calls (CppTimer_name_verbose nm vb) = Some s1"
  by (rule run_returns) (simp_all add: CppTimer_name_verbose_def)

lemma spec_tracker_open_step:
  "fst (fold spec_step calls (tr, lg)) k = fold (open_step k) calls (tr k)"
proof (induction calls arbitrary: tr lg)
  case Nil
  then show ?case by simp
next
  case (Cons c calls)
  show ?case by (cases c) (auto simp: Cons.IH split: option.splits)
qed

lemma spec_tracker_open_since: "fst (spec_run calls) k = open_since k calls"
  by (simp add: spec_run_def open_since_def spec_tracker_open_step)

lemma call_step_sorted:
  "sorted_wrt (<) (map fst (tics s)) \<Longrightarrow> call_step ar c s = Some s1 \<Longrightarrow>
   sorted_wrt (<) (map fst (tics s1))"
  by (cases c)
     (auto simp: tic_def toc_def warn_def reset_def aggregate_def warn_not_stopped_def fold_warn
        map_assign_sorted map_erase_sorted Let_def split: option.splits if_splits)

lemma run_sorted:
  "sorted_wrt (<) (map fst (tics s)) \<Longrightarrow> run ar calls s = Some s1 \<Longrightarrow>
   sorted_wrt (<) (map fst (tics s1))"
proof (induction calls arbitrary: s)
  case Nil
  then show ?case by simp
next
  case (Cons c calls)
  then show ?case by (auto split: option.splits dest: call_step_sorted)
qed

lemma run_fresh_sorted:
  "run ar calls (CppTimer_name_verbose nm vb) = Some s1 \<Longrightarrow>
   sorted_wrt (<) (map fst (tics s1))"
  by (rule run_sorted [of "CppTimer_name_verbose nm vb"])
     (simp_all add: CppTimer_name_verbose_def)

subsection \<open>\<^verbatim>\<open>ScopedTimer\<close>\<close>

text \<open>
  The constructor starts the timer under the tag it is given and the destructor stops the
  timer under the same tag; the default of the member is always replaced.
\<close>

lemma ScopedTimer_given_tag:
  "ScopedTimer_ctor tag c t_in s = (this, s1) \<Longrightarrow>
   ScopedTimer_tag this = tag \<and> s1 = tic tag c t_in s \<and>
   ScopedTimer_dtor this c t_out s2 = toc tag c t_out s2"
  by (auto simp: ScopedTimer_ctor_def ScopedTimer_dtor_def)

section \<open>The claims\<close>

text \<open>
  C2. If the key (T, c) has no entry in \<^verbatim>\<open>tics\<close>, then \<^verbatim>\<open>toc\<close> of T in context c
  emits the not-started message when the timer is verbose and does nothing else:
  \<^verbatim>\<open>tics\<close>, \<^verbatim>\<open>tags\<close>, \<^verbatim>\<open>durations\<close> and \<^verbatim>\<open>data\<close> are unchanged, and so is every
  other member.
\<close>

theorem toc_not_started:
  assumes "map_find (T, c) (tics s) = None"
  shows "warned (toc T c now s) = warned s @ (if verbose s then [not_started_msg T] else []) \<and>
         tics (toc T c now s) = tics s \<and>
         tags (toc T c now s) = tags s \<and>
         durations (toc T c now s) = durations s \<and>
         data (toc T c now s) = data s \<and>
         toc T c now s = s\<lparr>warned := warned (toc T c now s)\<rparr>"
  using assms by (simp add: toc_def warn_def)

theorem toc_not_started_witness:
  "map_find (''fit'', 0) (tics example_timer) = None \<and>
   warned (toc ''fit'' 0 2000 example_timer) = [not_started_msg ''fit''] \<and>
   tics (toc ''fit'' 0 2000 example_timer) = [((''load'', 0), 1000)] \<and>
   tags (toc ''fit'' 0 2000 example_timer) = [''fit'', ''io'', ''fit''] \<and>
   durations (toc ''fit'' 0 2000 example_timer) = [20, 5, 30] \<and>
   data (toc ''fit'' 0 2000 example_timer) = data example_timer"
proof -
  have h: "map_find (''fit'', 0) (tics example_timer) = None"
    by (simp add: example_timer_def map_find_def)
  show ?thesis
    using h toc_not_started [OF h, of 2000] by (simp add: example_timer_def)
qed

text \<open>
  C3. When the two vectors have the same length (as they have in every state the
  operations reach) and hold fewer than \<open>2 ^ 32\<close> distinct tags, \<^verbatim>\<open>aggregate\<close>
  returns with \<^verbatim>\<open>tags\<close> and \<^verbatim>\<open>durations\<close> empty and \<^verbatim>\<open>tics\<close> as it was: every
  open interval is still there with its start time. The next \<^verbatim>\<open>aggregate\<close> emits for
  the open intervals the same messages again.
\<close>

theorem aggregate_clears_log_keeps_tics:
  assumes "length (tags s) = length (durations s)" "card (set (tags s)) < 2 ^ 32"
  shows "\<exists>s1 s2. aggregate ar s = Some s1 \<and> tags s1 = [] \<and> durations s1 = [] \<and>
           tics s1 = tics s \<and> warned s1 = warned s @ open_msgs s \<and>
           aggregate ar s1 = Some s2 \<and> tics s2 = tics s \<and>
           warned s2 = warned s1 @ open_msgs s"
proof -
  let ?s1 = "s\<lparr>warned := warned s @ open_msgs s,
               data := merged ar (zip (tags s) (durations s)) (data s),
               tags := [], durations := []\<rparr>"
  have a1: "aggregate ar s = Some ?s1" by (rule aggregate_eq [OF assms])
  have len: "length (tags ?s1) = length (durations ?s1)"
    and c: "card (set (tags ?s1)) < 2 ^ 32" by simp_all
  have om: "open_msgs ?s1 = open_msgs s" by (simp add: open_msgs_def)
  from aggregate_eq [OF len c, of ar] obtain s2 where
    a2: "aggregate ar ?s1 = Some s2" and
    s2: "tics s2 = tics s" "warned s2 = warned ?s1 @ open_msgs s"
    by (simp add: om)
  from a1 a2 s2 show ?thesis by simp
qed

theorem aggregate_clears_log_keeps_tics_witness:
  "length (tags example_timer) = length (durations example_timer) \<and>
   card (set (tags example_timer)) < 2 ^ 32 \<and>
   (\<exists>s1 s2. aggregate exact_arith example_timer = Some s1 \<and> tags s1 = [] \<and>
      durations s1 = [] \<and> tics s1 = [((''load'', 0), 1000)] \<and>
      warned s1 = [not_stopped_msg ''load''] \<and>
      aggregate exact_arith s1 = Some s2 \<and> tics s2 = [((''load'', 0), 1000)] \<and>
      warned s2 = [not_stopped_msg ''load'', not_stopped_msg ''load''])"
proof -
  have h: "length (tags example_timer) = length (durations example_timer)"
    by (simp add: example_timer_def)
  have c: "card (set (tags example_timer)) < 2 ^ 32"
    by (rule few_tags) (simp add: example_timer_def)
  have t: "tics example_timer = [((''load'', 0), 1000)]" "warned example_timer = []"
    "open_msgs example_timer = [not_stopped_msg ''load'']"
    by (simp_all add: example_timer_def open_msgs_def)
  show ?thesis
    using h c aggregate_clears_log_keeps_tics [OF h c, of exact_arith] unfolding t by auto
qed

text \<open>
  C1. Let a batch with fewer than \<open>2 ^ 32\<close> distinct tags be split into two batches
  such that, for every tag, the durations of the tag in the batch are those of the first
  part followed by those of the second (a split into two consecutive parts is one).
  Whatever the table holds before, and for any arithmetic of \<^verbatim>\<open>double\<close>,
  \<^verbatim>\<open>aggregate\<close> over the whole batch and \<^verbatim>\<open>aggregate\<close> over the first part followed
  by \<^verbatim>\<open>aggregate\<close> over the second return the same table. In it, every tag of the batch
  holds Welford's fold of its durations, started from the tag's previous
  (mean, M2, count) or from zeros when it had none, and every other tag holds what it
  held.
\<close>

theorem aggregate_split:
  assumes "\<forall>t. entries t batch = entries t batch1 @ entries t batch2"
    and "card (fst ` set batch) < 2 ^ 32"
  shows "\<exists>s1 s2 s3.
           aggregate ar (with_batch batch s) = Some s1 \<and>
           aggregate ar (with_batch batch1 s) = Some s2 \<and>
           aggregate ar (with_batch batch2 s2) = Some s3 \<and>
           data s3 = data s1 \<and>
           (\<forall>t. data s1 t =
              (if t \<in> fst ` set batch
               then Some (welford_fold ar (entries t batch) (init_stat ar (data s) t))
               else data s t))"
proof -
  have fin: "finite (fst ` set batch)" by simp
  from split_tags_subset [OF assms(1)] assms(2) have
    c1: "card (fst ` set batch1) < 2 ^ 32" and c2: "card (fst ` set batch2) < 2 ^ 32"
    using card_mono [OF fin] by (meson le_less_trans)+
  show ?thesis
    by (simp add: aggregate_with_batch [OF assms(2)] aggregate_with_batch [OF c1]
        aggregate_with_batch [OF c2] merged_split [OF assms(1)])
       (simp add: merged_def)
qed

theorem aggregate_split_witness:
  "(\<forall>t. entries t [(''fit'', 20), (''io'', 5), (''fit'', 30)] =
        entries t [(''fit'', 20), (''io'', 5)] @ entries t [(''fit'', 30)]) \<and>
   card (fst ` set [(''fit'', 20 :: u64), (''io'', 5), (''fit'', 30)]) < 2 ^ 32 \<and>
   (\<exists>s1 s2 s3.
      aggregate exact_arith
        (with_batch [(''fit'', 20), (''io'', 5), (''fit'', 30)] example_timer) = Some s1 \<and>
      aggregate exact_arith (with_batch [(''fit'', 20), (''io'', 5)] example_timer) = Some s2 \<and>
      aggregate exact_arith (with_batch [(''fit'', 30)] s2) = Some s3 \<and>
      data s3 = data s1 \<and>
      data s1 ''fit'' = Some (20, 200, 3) \<and> data s1 ''io'' = Some (5, 0, 1) \<and>
      data s1 ''plot'' = Some (7, 2, 4))"
proof -
  let ?B = "[(''fit'', 20), (''io'', 5), (''fit'', 30)] :: (string \<times> u64) list"
  let ?B1 = "[(''fit'', 20), (''io'', 5)] :: (string \<times> u64) list"
  let ?B2 = "[(''fit'', 30)] :: (string \<times> u64) list"
  have h: "\<forall>t. entries t ?B = entries t ?B1 @ entries t ?B2"
    by (simp add: entries_def)
  have c: "card (fst ` set ?B) < 2 ^ 32" by (rule few_batch_tags) simp
  have v: "welford_fold exact_arith [20, 30] (10, 0, 1) = (20, 200, 3)"
    "welford_fold exact_arith [5] (0, 0, 0) = (5, 0, 1)"
    by (simp_all add: welford_fold_def welford_def exact_arith_def)
  from aggregate_split [OF h c, of exact_arith example_timer]
  obtain s1 s2 s3 where
    a: "aggregate exact_arith (with_batch ?B example_timer) = Some s1"
      "aggregate exact_arith (with_batch ?B1 example_timer) = Some s2"
      "aggregate exact_arith (with_batch ?B2 s2) = Some s3"
      "data s3 = data s1" and
    d: "\<forall>t. data s1 t =
          (if t \<in> fst ` set ?B
           then Some (welford_fold exact_arith (entries t ?B)
                        (init_stat exact_arith (data example_timer) t))
           else data example_timer t)"
    by blast
  have "data s1 ''fit'' = Some (20, 200, 3)" "data s1 ''io'' = Some (5, 0, 1)"
    "data s1 ''plot'' = Some (7, 2, 4)"
    by (simp_all add: d entries_def init_stat_def example_timer_def v)
       (simp_all add: exact_arith_def v [unfolded exact_arith_def])
  with h c a show ?thesis by blast
qed

text \<open>
  C4. When the two vectors have the same length and hold fewer than \<open>2 ^ 32\<close>
  distinct tags, \<^verbatim>\<open>aggregate\<close> returns a table in which every tag that does not occur
  in \<^verbatim>\<open>tags\<close> has the entry it had; with \<^verbatim>\<open>tags\<close> empty the whole table is
  unchanged.
\<close>

theorem aggregate_keeps_unsampled:
  assumes "length (tags s) = length (durations s)" "card (set (tags s)) < 2 ^ 32"
  shows "\<exists>s1. aggregate ar s = Some s1 \<and>
           (tags s = [] \<longrightarrow> data s1 = data s) \<and>
           (\<forall>t. t \<notin> set (tags s) \<longrightarrow> data s1 t = data s t)"
  by (auto simp: aggregate_eq [OF assms] merged_def fst_set_zip [OF assms(1)])

theorem aggregate_keeps_unsampled_witness:
  "length (tags example_timer) = length (durations example_timer) \<and>
   card (set (tags example_timer)) < 2 ^ 32 \<and>
   ''plot'' \<notin> set (tags example_timer) \<and>
   (\<exists>s1. aggregate exact_arith example_timer = Some s1 \<and> data s1 ''plot'' = Some (7, 2, 4)) \<and>
   length (tags (with_batch [] example_timer)) =
     length (durations (with_batch [] example_timer)) \<and>
   card (set (tags (with_batch [] example_timer))) < 2 ^ 32 \<and>
   tags (with_batch [] example_timer) = [] \<and>
   (\<exists>s1. aggregate exact_arith (with_batch [] example_timer) = Some s1 \<and>
      data s1 = [''fit'' \<mapsto> (10, 0, 1), ''plot'' \<mapsto> (7, 2, 4)])"
proof -
  have h1: "length (tags example_timer) = length (durations example_timer)"
    and n: "''plot'' \<notin> set (tags example_timer)"
    and d: "data example_timer ''plot'' = Some (7, 2, 4)"
    by (simp_all add: example_timer_def)
  have k1: "card (set (tags example_timer)) < 2 ^ 32"
    by (rule few_tags) (simp add: example_timer_def)
  have h2: "length (tags (with_batch [] example_timer)) =
            length (durations (with_batch [] example_timer))"
    and k2: "card (set (tags (with_batch [] example_timer))) < 2 ^ 32"
    and e: "tags (with_batch [] example_timer) = []"
    and d2: "data (with_batch [] example_timer) =
             [''fit'' \<mapsto> (10, 0, 1), ''plot'' \<mapsto> (7, 2, 4)]"
    by (simp_all add: with_batch_def example_timer_def)
  from aggregate_keeps_unsampled [OF h1 k1, of exact_arith] n d
  have c1: "\<exists>s1. aggregate exact_arith example_timer = Some s1 \<and>
      data s1 ''plot'' = Some (7, 2, 4)"
    by auto
  from aggregate_keeps_unsampled [OF h2 k2, of exact_arith] e d2
  have c2: "\<exists>s1. aggregate exact_arith (with_batch [] example_timer) = Some s1 \<and>
      data s1 = [''fit'' \<mapsto> (10, 0, 1), ''plot'' \<mapsto> (7, 2, 4)]"
    by auto
  from h1 k1 n c1 h2 k2 e c2 show ?thesis by blast
qed

text \<open>
  C6. A \<^verbatim>\<open>toc\<close> of a key that is not open emits the not-started message, which
  contains the tag, exactly when the timer is verbose; a \<^verbatim>\<open>toc\<close> of an open key
  emits nothing. \<^verbatim>\<open>aggregate\<close> emits one not-stopped message, which contains the tag,
  per open interval exactly when the timer is verbose. Whatever is open, when the two
  vectors have the same length and hold fewer than \<open>2 ^ 32\<close> distinct tags it returns,
  with the batch merged into the table and both vectors empty.
\<close>

theorem diagnostics_gated_by_verbose:
  "(map_find (T, c) (tics s) = None \<longrightarrow>
      warned (toc T c now s) = warned s @ (if verbose s then [not_started_msg T] else []) \<and>
      (warned (toc T c now s) \<noteq> warned s) = verbose s) \<and>
   (map_find (T, c) (tics s) \<noteq> None \<longrightarrow> warned (toc T c now s) = warned s) \<and>
   sublist T (not_started_msg T) \<and>
   (length (tags s) = length (durations s) \<and> card (set (tags s)) < 2 ^ 32 \<longrightarrow>
      (\<exists>s1. aggregate ar s = Some s1 \<and>
         warned s1 = warned s @
           (if verbose s then map (\<lambda>e. not_stopped_msg (fst (fst e))) (tics s) else []) \<and>
         (warned s1 \<noteq> warned s) = (verbose s \<and> tics s \<noteq> []) \<and>
         data s1 = merged ar (zip (tags s) (durations s)) (data s) \<and>
         tags s1 = [] \<and> durations s1 = [])) \<and>
   (\<forall>e \<in> set (tics s). sublist (fst (fst e)) (not_stopped_msg (fst (fst e))))"
proof -
  have a: "map_find (T, c) (tics s) = None \<longrightarrow>
      warned (toc T c now s) = warned s @ (if verbose s then [not_started_msg T] else []) \<and>
      (warned (toc T c now s) \<noteq> warned s) = verbose s"
    by (simp add: toc_def warn_def)
  have b: "map_find (T, c) (tics s) \<noteq> None \<longrightarrow> warned (toc T c now s) = warned s"
    by (auto simp: toc_def)
  have c: "length (tags s) = length (durations s) \<and> card (set (tags s)) < 2 ^ 32 \<longrightarrow>
      (\<exists>s1. aggregate ar s = Some s1 \<and>
         warned s1 = warned s @
           (if verbose s then map (\<lambda>e. not_stopped_msg (fst (fst e))) (tics s) else []) \<and>
         (warned s1 \<noteq> warned s) = (verbose s \<and> tics s \<noteq> []) \<and>
         data s1 = merged ar (zip (tags s) (durations s)) (data s) \<and>
         tags s1 = [] \<and> durations s1 = [])"
    by (simp add: aggregate_eq open_msgs_def)
  from a b c show ?thesis
    by (simp add: sublist_not_started sublist_not_stopped)
qed

theorem diagnostics_gated_by_verbose_witness:
  "map_find (''fit'', 0) (tics example_timer) = None \<and>
   warned (toc ''fit'' 0 2000 example_timer) = [not_started_msg ''fit''] \<and>
   warned (toc ''fit'' 0 2000 (example_timer\<lparr>verbose := False\<rparr>)) = [] \<and>
   map_find (''load'', 0) (tics example_timer) \<noteq> None \<and>
   warned (toc ''load'' 0 2000 example_timer) = [] \<and>
   length (tags example_timer) = length (durations example_timer) \<and>
   card (set (tags example_timer)) < 2 ^ 32 \<and>
   (\<exists>s1. aggregate exact_arith example_timer = Some s1 \<and>
      warned s1 = [not_stopped_msg ''load''] \<and> tags s1 = [] \<and> durations s1 = []) \<and>
   (\<exists>s1. aggregate exact_arith (example_timer\<lparr>verbose := False\<rparr>) = Some s1 \<and>
      warned s1 = [] \<and> tags s1 = [] \<and> durations s1 = []) \<and>
   sublist ''load'' (not_stopped_msg ''load'')"
proof -
  let ?q = "example_timer\<lparr>verbose := False\<rparr>"
  have h: "map_find (''fit'', 0) (tics example_timer) = None"
    "map_find (''fit'', 0) (tics ?q) = None"
    "map_find (''load'', 0) (tics example_timer) \<noteq> None"
    "length (tags example_timer) = length (durations example_timer)"
    "length (tags ?q) = length (durations ?q)"
    "((''load'', 0), 1000) \<in> set (tics example_timer)"
    by (simp_all add: example_timer_def map_find_def)
  have k: "card (set (tags example_timer)) < 2 ^ 32" "card (set (tags ?q)) < 2 ^ 32"
    by (rule few_tags, simp add: example_timer_def)+
  have f: "verbose example_timer" "\<not> verbose ?q" "warned example_timer = []" "warned ?q = []"
    "tics example_timer = [((''load'', 0), 1000)]"
    by (simp_all add: example_timer_def)
  note t1 = diagnostics_gated_by_verbose [of "''fit''" 0 example_timer 2000 exact_arith]
  note t2 = diagnostics_gated_by_verbose [of "''fit''" 0 ?q 2000 exact_arith]
  note t3 = diagnostics_gated_by_verbose [of "''load''" 0 example_timer 2000 exact_arith]
  have c1: "warned (toc ''fit'' 0 2000 example_timer) = [not_started_msg ''fit'']"
    using t1 h f by simp
  have c2: "warned (toc ''fit'' 0 2000 ?q) = []"
    using t2 h(2) f(2,4) by simp
  have c3: "warned (toc ''load'' 0 2000 example_timer) = []"
    using t3 h(3) f(3) by simp
  have c4: "\<exists>s1. aggregate exact_arith example_timer = Some s1 \<and>
      warned s1 = [not_stopped_msg ''load''] \<and> tags s1 = [] \<and> durations s1 = []"
    using t1 h(4) k(1) f(1,3,5) by auto
  have c5: "\<exists>s1. aggregate exact_arith ?q = Some s1 \<and>
      warned s1 = [] \<and> tags s1 = [] \<and> durations s1 = []"
    using t2 h(5) k(2) f(2,4) by auto
  have c6: "sublist ''load'' (not_stopped_msg ''load'')"
    using t1 h(6) by fastforce
  from h k(1) c1 c2 c3 c4 c5 c6 show ?thesis by blast
qed

text \<open>
  C5. \<^verbatim>\<open>tic\<close> is total; after it the key holds the clock reading it was given, whatever
  the key held before, every other key holds what it held, and no other member has
  changed. A \<^verbatim>\<open>toc\<close> of an open key removes that key and no other. In every state that
  a sequence of calls on a new timer reaches, a key is in \<^verbatim>\<open>tics\<close> exactly when its
  last \<^verbatim>\<open>tic\<close> has not been followed by a \<^verbatim>\<open>toc\<close> of the key or by a \<^verbatim>\<open>reset\<close>,
  and it holds the time of that \<^verbatim>\<open>tic\<close>; the keys of \<^verbatim>\<open>tics\<close> are strictly
  ascending, so no key occurs twice. Fewer than \<open>2 ^ 32\<close> calls all return.
\<close>

theorem tracker_start_stop:
  "map_find (T, c) (tics (tic T c now s)) = Some now \<and>
   (\<forall>k. k \<noteq> (T, c) \<longrightarrow> map_find k (tics (tic T c now s)) = map_find k (tics s)) \<and>
   tic T c now s = s\<lparr>tics := tics (tic T c now s)\<rparr> \<and>
   (map_find (T, c) (tics s) \<noteq> None \<longrightarrow>
      map_find (T, c) (tics (toc T c now s)) = None \<and>
      (\<forall>k. k \<noteq> (T, c) \<longrightarrow> map_find k (tics (toc T c now s)) = map_find k (tics s))) \<and>
   (\<forall>s1. run ar calls (CppTimer_name_verbose nm vb) = Some s1 \<longrightarrow>
      (\<forall>k. map_find k (tics s1) = open_since k calls) \<and>
      sorted_wrt (<) (map fst (tics s1))) \<and>
   (length calls < 2 ^ 32 \<longrightarrow> (\<exists>s1. run ar calls (CppTimer_name_verbose nm vb) = Some s1))"
proof -
  have a: "map_find (T, c) (tics (tic T c now s)) = Some now \<and>
     (\<forall>k. k \<noteq> (T, c) \<longrightarrow> map_find k (tics (tic T c now s)) = map_find k (tics s)) \<and>
     tic T c now s = s\<lparr>tics := tics (tic T c now s)\<rparr>"
    by (simp add: tic_def map_find_assign)
  have b: "map_find (T, c) (tics s) \<noteq> None \<longrightarrow>
      map_find (T, c) (tics (toc T c now s)) = None \<and>
      (\<forall>k. k \<noteq> (T, c) \<longrightarrow> map_find k (tics (toc T c now s)) = map_find k (tics s))"
    by (auto simp: toc_def map_find_erase)
  have r: "(\<forall>k. map_find k (tics s1) = open_since k calls) \<and>
      sorted_wrt (<) (map fst (tics s1))"
    if "run ar calls (CppTimer_name_verbose nm vb) = Some s1" for s1
    using run_fresh [OF that] run_fresh_sorted [OF that]
    by (simp add: spec_tracker_open_since)
  have t: "length calls < 2 ^ 32 \<longrightarrow>
      (\<exists>s1. run ar calls (CppTimer_name_verbose nm vb) = Some s1)"
    using run_fresh_returns [of calls ar nm vb] by blast
  from a b r t show ?thesis by blast
qed

theorem tracker_start_stop_witness:
  "map_find (''load'', 0) (tics (tic ''load'' 0 3000 example_timer)) = Some 3000 \<and>
   (''fit'', 1) \<noteq> (''load'', 0 :: u32) \<and>
   map_find (''fit'', 1) (tics (tic ''load'' 0 3000 example_timer)) = None \<and>
   map_find (''load'', 0) (tics example_timer) \<noteq> None \<and>
   map_find (''load'', 0) (tics (toc ''load'' 0 3000 example_timer)) = None \<and>
   map_find (''fit'', 1) (tics (toc ''load'' 0 3000 example_timer)) = None \<and>
   length example_calls < 2 ^ 32 \<and>
   (\<exists>s1. run exact_arith example_calls (CppTimer_name_verbose ''times'' True) = Some s1 \<and>
      map_find (''c'', 2) (tics s1) = Some 9000 \<and> map_find (''d'', 0) (tics s1) = None \<and>
      map_find (''a'', 1) (tics s1) = None)"
proof -
  note t = tracker_start_stop [of "''load''" 0 3000 example_timer exact_arith example_calls
      "''times''" True]
  have h: "(''fit'', 1) \<noteq> (''load'', 0 :: u32)"
    "map_find (''load'', 0) (tics example_timer) \<noteq> None"
    "map_find (''fit'', 1) (tics example_timer) = None"
    by (simp_all add: example_timer_def map_find_def)
  have l: "length example_calls < 2 ^ 32" by (simp add: example_calls_def)
  have o: "open_since (''c'', 2) example_calls = Some 9000"
    "open_since (''d'', 0) example_calls = None"
    "open_since (''a'', 1) example_calls = None"
    by (simp_all add: open_since_def example_calls_def)
  from t have c1: "map_find (''load'', 0) (tics (tic ''load'' 0 3000 example_timer)) = Some 3000"
    by blast
  from t h have c2: "map_find (''fit'', 1) (tics (tic ''load'' 0 3000 example_timer)) = None"
    by metis
  from t h have c3: "map_find (''load'', 0) (tics (toc ''load'' 0 3000 example_timer)) = None"
    "map_find (''fit'', 1) (tics (toc ''load'' 0 3000 example_timer)) = None"
    by metis+
  from t l obtain s1 where
    r: "run exact_arith example_calls (CppTimer_name_verbose ''times'' True) = Some s1"
    by blast
  with t have "\<forall>k. map_find k (tics s1) = open_since k example_calls" by blast
  with o r have c4: "\<exists>s1.
      run exact_arith example_calls (CppTimer_name_verbose ''times'' True) = Some s1 \<and>
      map_find (''c'', 2) (tics s1) = Some 9000 \<and> map_find (''d'', 0) (tics s1) = None \<and>
      map_find (''a'', 1) (tics s1) = None"
    by simp
  from h l c1 c2 c3 c4 show ?thesis by blast
qed

text \<open>
  C7, as amended. A block that declares a \<^verbatim>\<open>ScopedTimer\<close> with tag y leaves the block
  the way its body does, in the state that \<^verbatim>\<open>tic\<close> of y before the body and
  \<^verbatim>\<open>toc\<close> of y after it produce, on every exit path; when the body runs to its end
  this is the block with the explicit pair of calls. If the key of y in this thread is
  still open when the block is left, leaving it appends exactly one entry for y to the
  log, with the elapsed time since the start recorded under the key, and closes the key.
\<close>

theorem scoped_block_as_tic_toc:
  "fst (scoped_block tag c t_in body t_out s) = fst (body (tic tag c t_in s)) \<and>
   snd (scoped_block tag c t_in body t_out s) = toc tag c t_out (snd (body (tic tag c t_in s))) \<and>
   (fst (body (tic tag c t_in s)) = Fallthrough \<longrightarrow>
      scoped_block tag c t_in body t_out s = explicit_block tag c t_in body t_out s) \<and>
   (map_find (tag, c) (tics (snd (body (tic tag c t_in s)))) = Some start \<longrightarrow>
      tags (snd (scoped_block tag c t_in body t_out s)) =
        tags (snd (body (tic tag c t_in s))) @ [tag] \<and>
      durations (snd (scoped_block tag c t_in body t_out s)) =
        durations (snd (body (tic tag c t_in s))) @ [elapsed_us t_out start] \<and>
      map_find (tag, c) (tics (snd (scoped_block tag c t_in body t_out s))) = None)"
proof -
  obtain how s2 where b: "body (tic tag c t_in s) = (how, s2)"
    by (cases "body (tic tag c t_in s)")
  have sb: "scoped_block tag c t_in body t_out s = (how, toc tag c t_out s2)"
    by (simp add: scoped_block_def ScopedTimer_ctor_def ScopedTimer_dtor_def b)
  have ex: "how = Fallthrough \<longrightarrow> explicit_block tag c t_in body t_out s = (how, toc tag c t_out s2)"
    by (simp add: explicit_block_def b)
  have op: "map_find (tag, c) (tics s2) = Some start \<longrightarrow>
      tags (toc tag c t_out s2) = tags s2 @ [tag] \<and>
      durations (toc tag c t_out s2) = durations s2 @ [elapsed_us t_out start] \<and>
      map_find (tag, c) (tics (toc tag c t_out s2)) = None"
    by (simp add: toc_def map_find_erase)
  from sb ex op show ?thesis by (simp add: b)
qed

theorem scoped_block_as_tic_toc_witness:
  "map_find (''y'', 0) (tics (snd (throwing_body (tic ''y'' 0 1000 (CppTimer_default :: real CppTimer))))) = Some 1000 \<and>
   fst (scoped_block ''y'' 0 1000 throwing_body 3000 (CppTimer_default :: real CppTimer)) = Unwinding \<and>
   tags (snd (scoped_block ''y'' 0 1000 throwing_body 3000 (CppTimer_default :: real CppTimer))) = [''y''] \<and>
   durations (snd (scoped_block ''y'' 0 1000 throwing_body 3000 (CppTimer_default :: real CppTimer))) = [2] \<and>
   fst (straight_body (tic ''y'' 0 1000 (CppTimer_default :: real CppTimer))) = Fallthrough \<and>
   scoped_block ''y'' 0 1000 straight_body 3000 (CppTimer_default :: real CppTimer) =
     explicit_block ''y'' 0 1000 straight_body 3000 CppTimer_default"
proof -
  let ?d = "CppTimer_default :: real CppTimer"
  have h: "map_find (''y'', 0) (tics (snd (throwing_body (tic ''y'' 0 1000 ?d)))) = Some 1000"
    "fst (straight_body (tic ''y'' 0 1000 ?d)) = Fallthrough"
    by (simp_all add: throwing_body_def straight_body_def tic_def CppTimer_default_def
        CppTimer_name_verbose_def map_find_def)
  have f: "fst (throwing_body (tic ''y'' 0 1000 ?d)) = Unwinding"
    "tags (snd (throwing_body (tic ''y'' 0 1000 ?d))) = []"
    "durations (snd (throwing_body (tic ''y'' 0 1000 ?d))) = []"
    "elapsed_us 3000 1000 = 2"
    by (simp_all add: throwing_body_def tic_def CppTimer_default_def
        CppTimer_name_verbose_def elapsed_us_def signed_divide_int_def)
  note t1 = scoped_block_as_tic_toc [of "''y''" 0 1000 throwing_body 3000 ?d 1000]
  note t2 = scoped_block_as_tic_toc [of "''y''" 0 1000 straight_body 3000 ?d 1000]
  from t1 h(1) have
    "fst (scoped_block ''y'' 0 1000 throwing_body 3000 ?d) =
       fst (throwing_body (tic ''y'' 0 1000 ?d))"
    "tags (snd (scoped_block ''y'' 0 1000 throwing_body 3000 ?d)) =
       tags (snd (throwing_body (tic ''y'' 0 1000 ?d))) @ [''y'']"
    "durations (snd (scoped_block ''y'' 0 1000 throwing_body 3000 ?d)) =
       durations (snd (throwing_body (tic ''y'' 0 1000 ?d))) @ [elapsed_us 3000 1000]"
    by blast+
  then have c1:
    "fst (scoped_block ''y'' 0 1000 throwing_body 3000 ?d) = Unwinding"
    "tags (snd (scoped_block ''y'' 0 1000 throwing_body 3000 ?d)) = [''y'']"
    "durations (snd (scoped_block ''y'' 0 1000 throwing_body 3000 ?d)) = [2]"
    by (simp_all only: f append_Nil)
  from t2 h(2) have c2: "scoped_block ''y'' 0 1000 straight_body 3000 ?d =
     explicit_block ''y'' 0 1000 straight_body 3000 ?d"
    by blast
  from h c1 c2 show ?thesis by blast
qed


text \<open>
  C7, as stated, fails: a block with a \<^verbatim>\<open>ScopedTimer\<close> of tag y whose body is again
  such a block, in the same thread, is entered and left twice and logs one interval. The
  inner \<^verbatim>\<open>tic\<close> overwrites the start of the outer, the inner \<^verbatim>\<open>toc\<close> closes the key,
  and the outer destructor finds no start: it logs nothing and warns.
\<close>

theorem scoped_block_nested_counterexample:
  "tags (snd (nested_body (tic ''y'' 0 0 (CppTimer_default :: real CppTimer)))) = [''y''] \<and>
   tags (snd (scoped_block ''y'' 0 0 nested_body 3000 (CppTimer_default :: real CppTimer))) = [''y''] \<and>
   durations (snd (scoped_block ''y'' 0 0 nested_body 3000 (CppTimer_default :: real CppTimer))) = [1] \<and>
   warned (snd (scoped_block ''y'' 0 0 nested_body 3000 (CppTimer_default :: real CppTimer))) =
     [not_started_msg ''y''] \<and>
   length (tags (snd (scoped_block ''y'' 0 0 nested_body 3000 (CppTimer_default :: real CppTimer)))) \<noteq>
     length (tags (snd (nested_body (tic ''y'' 0 0 (CppTimer_default :: real CppTimer))))) + 1"
  by (simp add: scoped_block_def nested_body_def straight_body_def ScopedTimer_ctor_def
      ScopedTimer_dtor_def tic_def toc_def warn_def CppTimer_default_def
      CppTimer_name_verbose_def map_find_def map_erase_def elapsed_us_def signed_divide_int_def)

text \<open>
  C10. In every state that a sequence of \<^verbatim>\<open>tic\<close>, \<^verbatim>\<open>toc\<close>, \<^verbatim>\<open>aggregate\<close> and
  \<^verbatim>\<open>reset\<close> on a new timer reaches, \<^verbatim>\<open>tags\<close> and \<^verbatim>\<open>durations\<close> have the same
  length, and paired by index they are the sequence of (tag, elapsed) pairs that the
  \<^verbatim>\<open>toc\<close> calls of open keys have produced since the last \<^verbatim>\<open>aggregate\<close> or
  \<^verbatim>\<open>reset\<close>. From there \<^verbatim>\<open>aggregate\<close>, with fewer than \<open>2 ^ 32\<close> distinct tags
  logged, folds exactly these pairs, each duration under its own tag, and empties both
  vectors; \<^verbatim>\<open>reset\<close> empties both; \<^verbatim>\<open>tic\<close> changes neither; \<^verbatim>\<open>toc\<close> appends one
  element to each or changes neither. Fewer than \<open>2 ^ 32\<close> calls all return.
\<close>

theorem log_pairing:
  "(\<forall>s. run ar calls (CppTimer_name_verbose nm vb) = Some s \<longrightarrow>
      length (tags s) = length (durations s) \<and>
      zip (tags s) (durations s) = snd (spec_run calls) \<and>
      (card (set (tags s)) < 2 ^ 32 \<longrightarrow>
         (\<exists>s1. aggregate ar s = Some s1 \<and> tags s1 = [] \<and> durations s1 = [] \<and>
            data s1 = merged ar (snd (spec_run calls)) (data s))) \<and>
      tags (reset s) = [] \<and> durations (reset s) = [] \<and>
      tags (tic T c now s) = tags s \<and> durations (tic T c now s) = durations s \<and>
      (case map_find (T, c) (tics s) of
         None \<Rightarrow> tags (toc T c now s) = tags s \<and> durations (toc T c now s) = durations s
       | Some start \<Rightarrow>
           tags (toc T c now s) = tags s @ [T] \<and>
           durations (toc T c now s) = durations s @ [elapsed_us now start])) \<and>
   (length calls < 2 ^ 32 \<longrightarrow> (\<exists>s. run ar calls (CppTimer_name_verbose nm vb) = Some s))"
proof -
  have inv: "length (tags s) = length (durations s) \<and>
      zip (tags s) (durations s) = snd (spec_run calls) \<and>
      (card (set (tags s)) < 2 ^ 32 \<longrightarrow>
         (\<exists>s1. aggregate ar s = Some s1 \<and> tags s1 = [] \<and> durations s1 = [] \<and>
            data s1 = merged ar (snd (spec_run calls)) (data s))) \<and>
      tags (reset s) = [] \<and> durations (reset s) = [] \<and>
      tags (tic T c now s) = tags s \<and> durations (tic T c now s) = durations s \<and>
      (case map_find (T, c) (tics s) of
         None \<Rightarrow> tags (toc T c now s) = tags s \<and> durations (toc T c now s) = durations s
       | Some start \<Rightarrow>
           tags (toc T c now s) = tags s @ [T] \<and>
           durations (toc T c now s) = durations s @ [elapsed_us now start])"
    if r: "run ar calls (CppTimer_name_verbose nm vb) = Some s" for s
  proof -
    from run_fresh [OF r] have
      t: "tags s = map fst (snd (spec_run calls))" and
      d: "durations s = map snd (snd (spec_run calls))"
      by simp_all
    have len: "length (tags s) = length (durations s)" by (simp add: t d)
    have z: "zip (tags s) (durations s) = snd (spec_run calls)"
      unfolding t d by (rule zip_map_fst_snd)
    have ag: "card (set (tags s)) < 2 ^ 32 \<longrightarrow>
         (\<exists>s1. aggregate ar s = Some s1 \<and> tags s1 = [] \<and> durations s1 = [] \<and>
            data s1 = merged ar (snd (spec_run calls)) (data s))"
      by (simp add: aggregate_eq [OF len] z)
    have ops: "tags (reset s) = [] \<and> durations (reset s) = [] \<and>
      tags (tic T c now s) = tags s \<and> durations (tic T c now s) = durations s \<and>
      (case map_find (T, c) (tics s) of
         None \<Rightarrow> tags (toc T c now s) = tags s \<and> durations (toc T c now s) = durations s
       | Some start \<Rightarrow>
           tags (toc T c now s) = tags s @ [T] \<and>
           durations (toc T c now s) = durations s @ [elapsed_us now start])"
      by (simp add: reset_def tic_def toc_def warn_def split: option.splits)
    from len z ag ops show ?thesis by blast
  qed
  have ret: "length calls < 2 ^ 32 \<longrightarrow>
      (\<exists>s. run ar calls (CppTimer_name_verbose nm vb) = Some s)"
    using run_fresh_returns [of calls ar nm vb] by blast
  from inv ret show ?thesis by blast
qed

theorem log_pairing_witness:
  "length example_calls < 2 ^ 32 \<and>
   (\<exists>s. run exact_arith example_calls (CppTimer_name_verbose ''times'' True) = Some s \<and>
      tags s = [''d''] \<and> durations s = [3] \<and> card (set (tags s)) < 2 ^ 32 \<and>
      (\<exists>s1. aggregate exact_arith s = Some s1 \<and> tags s1 = [] \<and> durations s1 = [] \<and>
         data s1 = merged exact_arith [(''d'', 3)] (data s)))"
proof -
  note t = log_pairing [of exact_arith example_calls "''times''" True "''d''" 0 0]
  have l: "length example_calls < 2 ^ 32" by (simp add: example_calls_def)
  have sp: "snd (spec_run example_calls) = [(''d'', 3)]"
    by (simp add: spec_run_def example_calls_def elapsed_us_def signed_divide_int_def)
  from t l obtain s where
    r: "run exact_arith example_calls (CppTimer_name_verbose ''times'' True) = Some s"
    by blast
  with t have len: "length (tags s) = length (durations s)" and
    z: "zip (tags s) (durations s) = snd (spec_run example_calls)"
    by blast+
  have "tags s = map fst (zip (tags s) (durations s))"
    "durations s = map snd (zip (tags s) (durations s))"
    using len by simp_all
  then have td: "tags s = [''d'']" "durations s = [3]"
    unfolding z sp by simp_all
  then have k: "card (set (tags s)) < 2 ^ 32" by simp
  from t r k have "\<exists>s1. aggregate exact_arith s = Some s1 \<and> tags s1 = [] \<and>
      durations s1 = [] \<and> data s1 = merged exact_arith [(''d'', 3)] (data s)"
    unfolding sp by blast
  with l r td k show ?thesis by blast
qed

end
